theory Spec2Isabelle
  imports Main "HOL-Library.Word"
begin

unbundle bit_operations_syntax

section \<open>The ring buffer of \<^verbatim>\<open>lap_ptr_rb.h\<close>\<close>

text \<open>
  The header keeps a read and a write pointer that only ever grow (and wrap with the
  machine word), the size of the storage, and the storage itself. All three integer
  fields are \<^verbatim>\<open>size_t\<close>; the development is generic in its width \<^typ>\<open>'a\<close>, so
  every result holds for 32-bit and for 64-bit targets alike. The fields
  \<^verbatim>\<open>_rd_ptr\<close> and \<^verbatim>\<open>_wr_ptr\<close> lose their leading underscore, and \<^verbatim>\<open>size\<close> is
  called \<open>size_rb\<close> because \<open>size\<close> is a constant of HOL.
\<close>

record (overloaded) 'a lap_ptr_rb_header =
  rd_ptr :: "'a word"
  wr_ptr :: "'a word"
  size_rb :: "'a word"
  buffer :: "8 word list"

text \<open>The state computed by \<^verbatim>\<open>rb_get_state\<close> (the debug fields are compiled out).\<close>

record (overloaded) 'a lap_ptr_rb_state =
  rd_idx :: "'a word"
  wr_idx :: "'a word"
  full :: bool
  empty :: bool
  used_size :: "'a word"
  free_size :: "'a word"
  contiguous_used_size :: "'a word"
  contiguous_free_size :: "'a word"

text \<open>A state object before its first use, for the examples: all fields zero.\<close>

definition zero_state :: "'a::len lap_ptr_rb_state" where
  "zero_state =
     \<lparr>rd_idx = 0, wr_idx = 0, full = False, empty = False, used_size = 0, free_size = 0,
      contiguous_used_size = 0, contiguous_free_size = 0\<rparr>"

text \<open>
  \<^verbatim>\<open>rb_get_state\<close> receives two pointers: the header, which it copies and reads, and
  the state, which it fills in field by field. The model takes the two objects and returns
  both as they are after the call; the assignments are kept in the order of the source.
\<close>

definition rb_get_state ::
  "'a::len lap_ptr_rb_header \<Rightarrow> 'a lap_ptr_rb_state \<Rightarrow>
     'a lap_ptr_rb_header \<times> 'a lap_ptr_rb_state" where
  "rb_get_state rb_in state =
    (let rb = rb_in;
         rd_ptr = rd_ptr rb;
         wr_ptr = wr_ptr rb;
         size = size_rb rb;
         idx_mask = size - 1;
         wr_idx = wr_ptr AND idx_mask;
         state = state\<lparr>wr_idx := wr_idx\<rparr>;
         rd_idx = rd_ptr AND idx_mask;
         state = state\<lparr>rd_idx := rd_idx\<rparr>;
         ptr_xor_mask = (size OR idx_mask) AND (rd_ptr XOR wr_ptr);
         full = (size = ptr_xor_mask);
         state = state\<lparr>full := full\<rparr>;
         empty = (0 = ptr_xor_mask);
         state = state\<lparr>empty := empty\<rparr>;
         state = state\<lparr>free_size :=
                   (if empty then size else (rd_idx - wr_idx) AND idx_mask)\<rparr>;
         state = state\<lparr>used_size :=
                   (if full then size else (wr_idx - rd_idx) AND idx_mask)\<rparr>;
         state = state\<lparr>contiguous_free_size :=
                   (if full then 0
                    else if wr_idx \<ge> rd_idx then size - wr_idx else rd_idx - wr_idx)\<rparr>;
         state = state\<lparr>contiguous_used_size :=
                   (if empty then 0
                    else if wr_idx \<le> rd_idx then size - rd_idx else wr_idx - rd_idx)\<rparr>
     in (rb_in, state))"

text \<open>
  Modelled from the spec: the advance functions take a pointer to an \<^verbatim>\<open>rb_header_t\<close>,
  a type name the file uses and does not declare. The functions access its fields
  \<^verbatim>\<open>_wr_ptr\<close> and \<^verbatim>\<open>_rd_ptr\<close>, and the specification has one descriptor, holding
  the two positions, the capacity and the storage, that both the query and the advance
  operations work on; so \<^verbatim>\<open>rb_header_t\<close> is the header above.
\<close>

type_synonym 'a rb_header_t = "'a lap_ptr_rb_header"

text \<open>The two advance functions add to one pointer; the addition wraps with the word.\<close>

definition rb_advance_write_unsafe :: "'a::len rb_header_t \<Rightarrow> 'a word \<Rightarrow> 'a rb_header_t" where
  "rb_advance_write_unsafe rb n = rb\<lparr>wr_ptr := wr_ptr rb + n\<rparr>"

definition rb_advance_read_unsafe :: "'a::len rb_header_t \<Rightarrow> 'a word \<Rightarrow> 'a rb_header_t" where
  "rb_advance_read_unsafe rb n = rb\<lparr>rd_ptr := rd_ptr rb + n\<rparr>"

subsection \<open>The invariant of the header and the reachable headers\<close>

text \<open>
  The comment at the head of the file asks for a size \<open>2 ^ N\<close> with \<open>N + 1\<close> bits
  available in the pointers, and for a write pointer that is never more than one lap
  ahead of the read pointer.
\<close>

definition rb_inv :: "nat \<Rightarrow> 'a::len lap_ptr_rb_header \<Rightarrow> bool" where
  "rb_inv N rb \<longleftrightarrow>
     N < LENGTH('a) \<and> size_rb rb = 2 ^ N \<and> wr_ptr rb - rd_ptr rb \<le> 2 ^ N"

text \<open>
  A header is reachable when it comes from a fresh one (both pointers 0, a power-of-two
  size, storage of that many bytes) by advancing the write pointer by at most the free
  size a call of \<^verbatim>\<open>rb_get_state\<close> reports, advancing the read pointer by at most the
  used size it reports, and storing bytes into the storage, as the callers do between
  two calls.
\<close>

inductive reachable :: "'a::len lap_ptr_rb_header \<Rightarrow> bool" where
  reachable_init:
    "N < LENGTH('a) \<Longrightarrow> length b = 2 ^ N \<Longrightarrow>
     reachable \<lparr>rd_ptr = 0, wr_ptr = 0, size_rb = 2 ^ N, buffer = b\<rparr>"
| reachable_write:
    "reachable rb \<Longrightarrow> n \<le> free_size (snd (rb_get_state rb st)) \<Longrightarrow>
     reachable (rb_advance_write_unsafe rb n)"
| reachable_read:
    "reachable rb \<Longrightarrow> n \<le> used_size (snd (rb_get_state rb st)) \<Longrightarrow>
     reachable (rb_advance_read_unsafe rb n)"
| reachable_store:
    "reachable rb \<Longrightarrow> reachable (rb\<lparr>buffer := (buffer rb)[i := v]\<rparr>)"

subsection \<open>The state as the specification describes it\<close>

text \<open>
  The specification describes the state in terms of the bytes written and read so far.
  \<open>spec_state cap r w\<close> is that description for a buffer of \<open>cap\<close> bytes after \<open>w\<close>
  bytes written and \<open>r\<close> bytes read in total, both unbounded natural numbers: the
  indices are the totals modulo the capacity, used and free sum to the capacity, the
  buffer is full when everything is used and empty when nothing is, and a contiguous
  size is the longest run from its index that stays below the end of the storage. It is
  the reference the code is compared with; nothing in it wraps.
\<close>

definition spec_state :: "nat \<Rightarrow> nat \<Rightarrow> nat \<Rightarrow> 'a::len lap_ptr_rb_state" where
  "spec_state cap r w =
    (let used = w - r;
         free = cap - used;
         ri = r mod cap;
         wi = w mod cap
     in \<lparr>rd_idx = of_nat ri, wr_idx = of_nat wi,
         full = (used = cap), empty = (used = 0),
         used_size = of_nat used, free_size = of_nat free,
         contiguous_used_size = of_nat (min used (cap - ri)),
         contiguous_free_size = of_nat (min free (cap - wi))\<rparr>)"

section \<open>Words: the low bits of sums, differences and exclusive ors\<close>

text \<open>
  \<^verbatim>\<open>rb_get_state\<close> works on the low \<open>N\<close> bits of the pointers (the indices) and on bit
  \<open>N\<close> (the lap). The lemmas of this section relate \<open>take_bit\<close> on machine words to
  addition, subtraction and exclusive or; none of them mentions the buffer.
\<close>

lemma take_bit_word_add:
  "take_bit n (take_bit n x + take_bit n y) = take_bit n (x + y)" for x y :: "'a::len word"
  by transfer (simp add: take_bit_take_bit take_bit_add min.commute)

lemma take_bit_word_diff:
  "take_bit n (take_bit n x - take_bit n y) = take_bit n (x - y)" for x y :: "'a::len word"
  by transfer (simp add: take_bit_take_bit take_bit_diff min.commute)

lemma xor_eq_0_word: "(x XOR y = 0) = (x = y)" for x y :: "'a::len word"
  by (metis bit.xor_left_self xor.right_neutral)

lemma take_bit_word_exp: "take_bit (Suc N) ((2::'a::len word) ^ N) = 2 ^ N"
  by (rule bit_eqI) (auto simp add: bit_simps)

lemma take_bit_word_exp_self: "take_bit N ((2::'a::len word) ^ N) = 0"
  by (simp add: take_bit_eq_0_iff)

lemma uint_p2: "N < LENGTH('a) \<Longrightarrow> uint ((2::'a::len word) ^ N) = 2 ^ N"
  by (rule uint_2p) (simp add: word_gt_0 exp_eq_zero_iff)

lemma unat_p2: "N < LENGTH('a) \<Longrightarrow> unat ((2::'a::len word) ^ N) = 2 ^ N"
  by (simp add: unat_eq_nat_uint uint_p2 nat_power_eq)

lemma unat_take_bit_mod: "unat (take_bit N (x::'a::len word)) = unat x mod 2 ^ N"
  by (simp only: unsigned_take_bit_eq) (simp add: take_bit_eq_mod)

lemma take_bit_lt_p2: "N < LENGTH('a) \<Longrightarrow> take_bit N (x::'a::len word) < 2 ^ N"
  by (simp add: word_less_nat_alt unat_p2 unat_take_bit_mod)

lemma take_bit_self_lt: "N < LENGTH('a) \<Longrightarrow> (d::'a::len word) < 2 ^ N \<Longrightarrow> take_bit N d = d"
  by (simp add: take_bit_eq_mod word_less_def word_mod_def)

lemma take_bit_self_le:
  assumes "N < LENGTH('a)" and "(d::'a::len word) \<le> 2 ^ N"
  shows "take_bit (Suc N) d = d"
proof (cases "Suc N < LENGTH('a)")
  case True
  have "unat d \<le> 2 ^ N" using assms by (simp add: word_le_nat_alt unat_p2)
  also have "(2::nat) ^ N < 2 ^ Suc N" by simp
  finally have "d < 2 ^ Suc N" using True by (simp only: word_less_nat_alt unat_p2)
  then show ?thesis using True by (rule_tac take_bit_self_lt)
next
  case False
  then show ?thesis by (simp add: take_bit_word_eq_self)
qed

lemma word_sub_lt:
  assumes "(d::'a::len word) \<le> c" "d \<noteq> 0"
  shows "c - d < c"
  using assms by unat_arith

lemma take_bit_neg:
  assumes "N < LENGTH('a)" "(d::'a::len word) < 2 ^ N" "d \<noteq> 0"
  shows "take_bit N (- d) = 2 ^ N - d"
proof -
  have "2 ^ N - d < 2 ^ N" using assms by (simp add: word_sub_lt)
  then have "take_bit N (2 ^ N - d) = 2 ^ N - d" using assms(1) by (rule_tac take_bit_self_lt)
  moreover have "take_bit N (2 ^ N - d) = take_bit N (take_bit N (2 ^ N) - take_bit N d)"
    by (simp only: take_bit_word_diff)
  moreover have "take_bit N (0 - d) = take_bit N (take_bit N 0 - take_bit N d)"
    by (simp only: take_bit_word_diff)
  ultimately show ?thesis by (simp add: take_bit_word_exp_self)
qed

lemma take_bit_eq_iff_diff:
  "(take_bit n x = take_bit n y) = (take_bit n (y - x) = 0)" for x y :: "'a::len word"
proof
  assume "take_bit n x = take_bit n y"
  then have "take_bit n (take_bit n y - take_bit n x) = 0" by simp
  then show "take_bit n (y - x) = 0" by (simp only: take_bit_word_diff)
next
  assume a: "take_bit n (y - x) = 0"
  have "take_bit n y = take_bit n (x + (y - x))" by simp
  also have "\<dots> = take_bit n (take_bit n x + take_bit n (y - x))"
    by (simp only: take_bit_word_add)
  also have "\<dots> = take_bit n x" using a by simp
  finally show "take_bit n x = take_bit n y" by simp
qed

lemma take_bit_xor_exp:
  "take_bit (Suc N) ((x::'a::len word) XOR 2 ^ N) = take_bit (Suc N) (x + 2 ^ N)"
proof (cases "bit x N")
  case True
  have "x XOR 2 ^ N = flip_bit N x" by (simp add: flip_bit_def)
  also have "\<dots> = x - 2 ^ N" using True by (simp add: flip_bit_eq_if unset_bit_eq)
  finally have e: "x XOR 2 ^ N = x - 2 ^ N" .
  have "take_bit (Suc N) ((x + 2 ^ N) - (x - 2 ^ N)) = 0"
    by (simp add: take_bit_eq_0_iff)
  then show ?thesis unfolding e by (simp only: take_bit_eq_iff_diff)
next
  case False
  have "x XOR 2 ^ N = flip_bit N x" by (simp add: flip_bit_def)
  also have "\<dots> = x + 2 ^ N" using False by (simp add: flip_bit_eq_if set_bit_eq)
  finally show ?thesis by simp
qed

lemma xor_mask_full_iff:
  "(take_bit (Suc N) ((x::'a::len word) XOR y) = 2 ^ N) = (take_bit (Suc N) (y - x) = 2 ^ N)"
proof -
  have "(take_bit (Suc N) (x XOR y) = 2 ^ N) = (take_bit (Suc N) y = take_bit (Suc N) (x XOR 2 ^ N))"
  proof
    assume a: "take_bit (Suc N) (x XOR y) = 2 ^ N"
    have "take_bit (Suc N) y = take_bit (Suc N) (x XOR (x XOR y))"
      by (simp flip: xor.assoc)
    also have "\<dots> = take_bit (Suc N) x XOR take_bit (Suc N) (x XOR y)" by (simp only: take_bit_xor)
    also have "\<dots> = take_bit (Suc N) x XOR take_bit (Suc N) (2 ^ N)" by (simp only: a take_bit_word_exp)
    finally show "take_bit (Suc N) y = take_bit (Suc N) (x XOR 2 ^ N)" by (simp only: take_bit_xor)
  next
    assume a: "take_bit (Suc N) y = take_bit (Suc N) (x XOR 2 ^ N)"
    have "take_bit (Suc N) (x XOR y) = take_bit (Suc N) x XOR take_bit (Suc N) y" by (simp only: take_bit_xor)
    also have "\<dots> = take_bit (Suc N) (x XOR (x XOR 2 ^ N))" by (simp only: a take_bit_xor)
    also have "\<dots> = 2 ^ N" by (simp flip: xor.assoc add: take_bit_word_exp)
    finally show "take_bit (Suc N) (x XOR y) = 2 ^ N" .
  qed
  also have "\<dots> = (take_bit (Suc N) (x + 2 ^ N) = take_bit (Suc N) y)"
    by (auto simp only: take_bit_xor_exp)
  also have "\<dots> = (take_bit (Suc N) (y - x - 2 ^ N) = 0)"
    by (simp add: take_bit_eq_iff_diff diff_diff_eq)
  also have "\<dots> = (take_bit (Suc N) (2 ^ N) = take_bit (Suc N) (y - x))"
    by (simp only: take_bit_eq_iff_diff)
  finally show ?thesis by (auto simp add: take_bit_word_exp)
qed

lemma xor_mask_empty_iff:
  "(take_bit n ((x::'a::len word) XOR y) = 0) = (take_bit n (y - x) = 0)"
  by (simp add: take_bit_xor xor_eq_0_word take_bit_eq_iff_diff)

lemma take_bit_Suc_exp_iff:
  assumes "N < LENGTH('a)"
  shows "(take_bit (Suc N) (z::'a::len word) = 2 ^ N) = (take_bit N z = 0 \<and> bit z N)"
proof
  assume a: "take_bit (Suc N) z = 2 ^ N"
  have "bit (take_bit (Suc N) z) N" unfolding a using assms by (simp add: bit_simps)
  then have b: "bit z N" by (simp add: bit_simps)
  have "take_bit N z = 0"
  proof (rule bit_eqI)
    fix n
    have "bit (take_bit (Suc N) z) n = bit ((2::'a word) ^ N) n" by (simp only: a)
    then show "bit (take_bit N z) n = bit (0::'a word) n"
      by (auto simp add: bit_simps)
  qed
  with b show "take_bit N z = 0 \<and> bit z N" by simp
next
  assume a: "take_bit N z = 0 \<and> bit z N"
  show "take_bit (Suc N) z = 2 ^ N"
  proof (rule bit_eqI)
    fix n
    have "\<not> (n < N \<and> bit z n)" using a bit_take_bit_iff [of N z n] by simp
    then show "bit (take_bit (Suc N) z) n = bit ((2::'a word) ^ N) n"
      using a assms by (auto simp add: bit_simps less_Suc_eq)
  qed
qed

lemma take_bit_Suc_zero_iff:
  "(take_bit (Suc N) (z::'a::len word) = 0) = (take_bit N z = 0 \<and> (N < LENGTH('a) \<longrightarrow> \<not> bit z N))"
  apply (simp add: bit_eq_iff bit_simps less_Suc_eq)
  apply (metis bit_imp_le_length bit_eqI)
  done

lemma take_bit_Suc_clear_iff:
  "N < LENGTH('a) \<Longrightarrow>
   (take_bit (Suc N) (z::'a::len word) = 0) = (take_bit N z = 0 \<and> \<not> bit z N)"
  by (simp only: take_bit_Suc_zero_iff) simp

lemma take_bit_xor_zero_iff:
  "(take_bit N ((x::'a::len word) XOR y) = 0) = (take_bit N x = take_bit N y)"
  by (simp add: take_bit_xor xor_eq_0_word)

lemma pow2_idx_mask: "(2::'a::len word) ^ N - 1 = mask N"
  by (simp add: mask_eq_exp_minus_1)

lemma pow2_lap_mask: "(2::'a::len word) ^ N OR (2 ^ N - 1) = mask (Suc N)"
  by (simp add: mask_Suc_exp pow2_idx_mask)


section \<open>The fields of the state\<close>

text \<open>
  First each field as the code computes it, then for a size \<open>2 ^ N\<close>, where the masks
  become \<open>take_bit\<close>, and last under the invariant, where the flags and the sizes are
  functions of the distance \<open>wr_ptr - rd_ptr\<close>.
\<close>

lemma rd_idx_raw: "rd_idx (snd (rb_get_state rb st)) = rd_ptr rb AND (size_rb rb - 1)"
  by (simp add: rb_get_state_def Let_def)

lemma wr_idx_raw: "wr_idx (snd (rb_get_state rb st)) = wr_ptr rb AND (size_rb rb - 1)"
  by (simp add: rb_get_state_def Let_def)

lemma full_raw:
  "full (snd (rb_get_state rb st)) =
     (size_rb rb = (size_rb rb OR (size_rb rb - 1)) AND (rd_ptr rb XOR wr_ptr rb))"
  by (simp add: rb_get_state_def Let_def)

lemma empty_raw:
  "empty (snd (rb_get_state rb st)) =
     (0 = (size_rb rb OR (size_rb rb - 1)) AND (rd_ptr rb XOR wr_ptr rb))"
  by (simp add: rb_get_state_def Let_def)

lemma free_size_raw:
  "free_size (snd (rb_get_state rb st)) =
     (if empty (snd (rb_get_state rb st)) then size_rb rb
      else (rd_idx (snd (rb_get_state rb st)) - wr_idx (snd (rb_get_state rb st))) AND (size_rb rb - 1))"
  by (simp add: rb_get_state_def Let_def)

lemma used_size_raw:
  "used_size (snd (rb_get_state rb st)) =
     (if full (snd (rb_get_state rb st)) then size_rb rb
      else (wr_idx (snd (rb_get_state rb st)) - rd_idx (snd (rb_get_state rb st))) AND (size_rb rb - 1))"
  by (simp add: rb_get_state_def Let_def)

lemma contiguous_free_size_raw:
  "contiguous_free_size (snd (rb_get_state rb st)) =
     (if full (snd (rb_get_state rb st)) then 0
      else if wr_idx (snd (rb_get_state rb st)) \<ge> rd_idx (snd (rb_get_state rb st))
           then size_rb rb - wr_idx (snd (rb_get_state rb st))
           else rd_idx (snd (rb_get_state rb st)) - wr_idx (snd (rb_get_state rb st)))"
  by (simp add: rb_get_state_def Let_def)

lemma contiguous_used_size_raw:
  "contiguous_used_size (snd (rb_get_state rb st)) =
     (if empty (snd (rb_get_state rb st)) then 0
      else if wr_idx (snd (rb_get_state rb st)) \<le> rd_idx (snd (rb_get_state rb st))
           then size_rb rb - rd_idx (snd (rb_get_state rb st))
           else wr_idx (snd (rb_get_state rb st)) - rd_idx (snd (rb_get_state rb st)))"
  by (simp add: rb_get_state_def Let_def)

lemma and_mask_take_bit: "x AND mask N = take_bit N x" for x :: "'a::len word"
  by (simp add: take_bit_eq_mask)

lemma mask_and_take_bit: "mask N AND x = take_bit N x" for x :: "'a::len word"
  by (simp add: take_bit_eq_mask and.commute)

lemma rd_idx_pow2:
  "size_rb rb = 2 ^ N \<Longrightarrow> rd_idx (snd (rb_get_state rb st)) = take_bit N (rd_ptr rb)"
  by (simp only: rd_idx_raw pow2_idx_mask and_mask_take_bit)

lemma wr_idx_pow2:
  "size_rb rb = 2 ^ N \<Longrightarrow> wr_idx (snd (rb_get_state rb st)) = take_bit N (wr_ptr rb)"
  by (simp only: wr_idx_raw pow2_idx_mask and_mask_take_bit)

lemma full_pow2:
  "size_rb rb = 2 ^ N \<Longrightarrow>
   full (snd (rb_get_state rb st)) = (take_bit (Suc N) (rd_ptr rb XOR wr_ptr rb) = 2 ^ N)"
  by (simp only: full_raw pow2_lap_mask mask_and_take_bit) (rule eq_commute)

lemma empty_pow2:
  "size_rb rb = 2 ^ N \<Longrightarrow>
   empty (snd (rb_get_state rb st)) = (take_bit (Suc N) (rd_ptr rb XOR wr_ptr rb) = 0)"
  by (simp only: empty_raw pow2_lap_mask mask_and_take_bit) (rule eq_commute)

lemma free_size_pow2:
  "size_rb rb = 2 ^ N \<Longrightarrow>
   free_size (snd (rb_get_state rb st)) =
     (if empty (snd (rb_get_state rb st)) then 2 ^ N else take_bit N (rd_ptr rb - wr_ptr rb))"
  by (simp only: free_size_raw rd_idx_pow2 wr_idx_pow2 pow2_idx_mask and_mask_take_bit take_bit_word_diff)

lemma used_size_pow2:
  "size_rb rb = 2 ^ N \<Longrightarrow>
   used_size (snd (rb_get_state rb st)) =
     (if full (snd (rb_get_state rb st)) then 2 ^ N else take_bit N (wr_ptr rb - rd_ptr rb))"
  by (simp only: used_size_raw rd_idx_pow2 wr_idx_pow2 pow2_idx_mask and_mask_take_bit take_bit_word_diff)


lemma rb_inv_len: "rb_inv N (rb::'a::len lap_ptr_rb_header) \<Longrightarrow> N < LENGTH('a)"
  by (simp add: rb_inv_def)

lemma rb_inv_size: "rb_inv N rb \<Longrightarrow> size_rb rb = 2 ^ N"
  by (simp add: rb_inv_def)

lemma rb_inv_dist: "rb_inv N rb \<Longrightarrow> wr_ptr rb - rd_ptr rb \<le> 2 ^ N"
  by (auto simp add: rb_inv_def)

lemma full_inv:
  assumes "rb_inv N rb"
  shows "full (snd (rb_get_state rb st)) = (wr_ptr rb - rd_ptr rb = 2 ^ N)"
proof -
  have "take_bit (Suc N) (wr_ptr rb - rd_ptr rb) = wr_ptr rb - rd_ptr rb"
    by (rule take_bit_self_le [OF rb_inv_len [OF assms] rb_inv_dist [OF assms]])
  then show ?thesis by (simp only: full_pow2 [OF rb_inv_size [OF assms]] xor_mask_full_iff)
qed

lemma empty_inv:
  assumes "rb_inv N rb"
  shows "empty (snd (rb_get_state rb st)) = (wr_ptr rb = rd_ptr rb)"
proof -
  have "take_bit (Suc N) (wr_ptr rb - rd_ptr rb) = wr_ptr rb - rd_ptr rb"
    by (rule take_bit_self_le [OF rb_inv_len [OF assms] rb_inv_dist [OF assms]])
  then have "empty (snd (rb_get_state rb st)) = (wr_ptr rb - rd_ptr rb = 0)"
    by (simp only: empty_pow2 [OF rb_inv_size [OF assms]] xor_mask_empty_iff)
  then show ?thesis by simp
qed

lemma used_size_inv:
  assumes "rb_inv N rb"
  shows "used_size (snd (rb_get_state rb st)) = wr_ptr rb - rd_ptr rb"
proof (cases "wr_ptr rb - rd_ptr rb = 2 ^ N")
  case True
  then show ?thesis
    by (simp add: used_size_pow2 [OF rb_inv_size [OF assms]] full_inv [OF assms])
next
  case False
  then have "wr_ptr rb - rd_ptr rb < 2 ^ N" using rb_inv_dist [OF assms] by simp
  then have "take_bit N (wr_ptr rb - rd_ptr rb) = wr_ptr rb - rd_ptr rb"
    by (rule take_bit_self_lt [OF rb_inv_len [OF assms]])
  then show ?thesis using False
    by (simp add: used_size_pow2 [OF rb_inv_size [OF assms]] full_inv [OF assms])
qed

lemma free_size_inv:
  assumes "rb_inv N rb"
  shows "free_size (snd (rb_get_state rb st)) = 2 ^ N - (wr_ptr rb - rd_ptr rb)"
proof (cases "wr_ptr rb = rd_ptr rb")
  case True
  then show ?thesis
    by (simp add: free_size_pow2 [OF rb_inv_size [OF assms]] empty_inv [OF assms])
next
  case False
  let ?d = "wr_ptr rb - rd_ptr rb"
  have ne: "?d \<noteq> 0" using False by simp
  have fs: "free_size (snd (rb_get_state rb st)) = take_bit N (- ?d)"
    using False by (simp add: free_size_pow2 [OF rb_inv_size [OF assms]] empty_inv [OF assms])
  show ?thesis
  proof (cases "?d = 2 ^ N")
    case True
    have "take_bit N (- ((2::'a word) ^ N)) = 0" by (simp add: take_bit_eq_0_iff)
    then show ?thesis unfolding fs True by simp
  next
    case F2: False
    have "?d < 2 ^ N" using rb_inv_dist [OF assms] F2 by simp
    then have "take_bit N (- ?d) = 2 ^ N - ?d"
      using ne by (rule_tac take_bit_neg [OF rb_inv_len [OF assms]])
    then show ?thesis unfolding fs .
  qed
qed

section \<open>The advance functions and the query as state transformers\<close>

text \<open>
  Claim C7. For every header and every \<open>n\<close>, also one larger than the free or used space,
  \<^verbatim>\<open>rb_advance_write_unsafe\<close> adds \<open>n\<close> to the write pointer, wrapping at \<open>2 ^ W\<close>,
  checks nothing and reports nothing, and leaves the read pointer, the size and the
  storage as they were; \<^verbatim>\<open>rb_advance_read_unsafe\<close> does the same to the read pointer.
\<close>

theorem C7_advance_frame:
  fixes rb :: "'a::len lap_ptr_rb_header"
  shows "wr_ptr (rb_advance_write_unsafe rb n) = wr_ptr rb + n
       \<and> unat (wr_ptr (rb_advance_write_unsafe rb n))
           = (unat (wr_ptr rb) + unat n) mod 2 ^ LENGTH('a)
       \<and> rd_ptr (rb_advance_write_unsafe rb n) = rd_ptr rb
       \<and> size_rb (rb_advance_write_unsafe rb n) = size_rb rb
       \<and> buffer (rb_advance_write_unsafe rb n) = buffer rb
       \<and> rd_ptr (rb_advance_read_unsafe rb n) = rd_ptr rb + n
       \<and> unat (rd_ptr (rb_advance_read_unsafe rb n))
           = (unat (rd_ptr rb) + unat n) mod 2 ^ LENGTH('a)
       \<and> wr_ptr (rb_advance_read_unsafe rb n) = wr_ptr rb
       \<and> size_rb (rb_advance_read_unsafe rb n) = size_rb rb
       \<and> buffer (rb_advance_read_unsafe rb n) = buffer rb"
  by (simp add: rb_advance_write_unsafe_def rb_advance_read_unsafe_def unat_word_ariths)

text \<open>
  Claim C8. \<^verbatim>\<open>rb_get_state\<close> leaves the header as it found it, what it writes into the
  state does not depend on what the state held before, and a second call right after the
  first, on the header and the state the first call left, returns the same header and the
  same state in every field.
\<close>

theorem C8_get_state_idempotent:
  fixes rb :: "'a::len lap_ptr_rb_header"
  shows "fst (rb_get_state rb st) = rb
       \<and> snd (rb_get_state rb st') = snd (rb_get_state rb st)
       \<and> rb_get_state (fst (rb_get_state rb st)) (snd (rb_get_state rb st))
           = rb_get_state rb st"
  by (simp add: rb_get_state_def Let_def)

text \<open>
  Claim C4. With a size of 8 and both pointers 0, advancing the write pointer by 8 and
  then the read pointer by 5 gives a state with write index 0, read index 5, 3 bytes
  used, 5 free, 5 contiguous free and 3 contiguous used. This holds for 64-bit and for
  32-bit pointers, whatever the storage holds.
\<close>

theorem C4_scenario_wrap_boundary:
  "snd (rb_get_state
         (rb_advance_read_unsafe
           (rb_advance_write_unsafe
             \<lparr>rd_ptr = 0 :: 64 word, wr_ptr = 0, size_rb = 8, buffer = b\<rparr> 8) 5) st)
     = \<lparr>rd_idx = 5, wr_idx = 0, full = False, empty = False,
        used_size = 3, free_size = 5,
        contiguous_used_size = 3, contiguous_free_size = 5\<rparr>
   \<and> snd (rb_get_state
         (rb_advance_read_unsafe
           (rb_advance_write_unsafe
             \<lparr>rd_ptr = 0 :: 32 word, wr_ptr = 0, size_rb = 8, buffer = b\<rparr> 8) 5) st')
     = \<lparr>rd_idx = 5, wr_idx = 0, full = False, empty = False,
        used_size = 3, free_size = 5,
        contiguous_used_size = 3, contiguous_free_size = 5\<rparr>"
  by (simp add: rb_get_state_def rb_advance_write_unsafe_def rb_advance_read_unsafe_def Let_def)

section \<open>Results that need only a power-of-two size\<close>

text \<open>
  Claim C1. For every header whose size is a power of two, the state's full and empty
  flags are never both set; when the write index and the read index differ both are
  clear; when the indices are equal exactly one is set. The flags are the comparison of
  \<open>(size | idx_mask) & (rd_ptr ^ wr_ptr)\<close> with the size (full) and with 0 (empty), and
  with equal indices that is the comparison of bit \<open>N\<close> of the two pointers: full when
  the bits differ, empty when they agree.
\<close>

theorem C1_full_empty_flags:
  fixes rb :: "'a::len lap_ptr_rb_header"
  assumes "N < LENGTH('a)" and "size_rb rb = 2 ^ N"
  shows "let s = snd (rb_get_state rb st);
             m = (size_rb rb OR (size_rb rb - 1)) AND (rd_ptr rb XOR wr_ptr rb)
         in \<not> (full s \<and> empty s)
          \<and> (wr_idx s \<noteq> rd_idx s \<longrightarrow> \<not> full s \<and> \<not> empty s)
          \<and> (wr_idx s = rd_idx s \<longrightarrow> full s \<noteq> empty s)
          \<and> full s = (m = size_rb rb)
          \<and> empty s = (m = 0)
          \<and> (wr_idx s = rd_idx s \<longrightarrow>
               full s = (bit (wr_ptr rb) N \<noteq> bit (rd_ptr rb) N)
             \<and> empty s = (bit (wr_ptr rb) N = bit (rd_ptr rb) N))"
proof -
  let ?s = "snd (rb_get_state rb st)"
  let ?z = "rd_ptr rb XOR wr_ptr rb"
  have low: "(take_bit N ?z = 0) = (wr_idx ?s = rd_idx ?s)"
    by (simp only: take_bit_xor_zero_iff wr_idx_pow2 [OF assms(2)] rd_idx_pow2 [OF assms(2)])
      (rule eq_commute)
  have lap: "bit ?z N = (bit (wr_ptr rb) N \<noteq> bit (rd_ptr rb) N)"
    by (auto simp add: bit_xor_iff)
  have f: "full ?s = (wr_idx ?s = rd_idx ?s \<and> bit (wr_ptr rb) N \<noteq> bit (rd_ptr rb) N)"
    by (simp only: full_pow2 [OF assms(2)] take_bit_Suc_exp_iff [OF assms(1)] low lap)
  have e: "empty ?s = (wr_idx ?s = rd_idx ?s \<and> bit (wr_ptr rb) N = bit (rd_ptr rb) N)"
    by (simp only: empty_pow2 [OF assms(2)] take_bit_Suc_clear_iff [OF assms(1)] low lap not_not)
  have fm: "full ?s = ((size_rb rb OR (size_rb rb - 1)) AND ?z = size_rb rb)"
    by (auto simp add: full_raw)
  have em: "empty ?s = ((size_rb rb OR (size_rb rb - 1)) AND ?z = 0)"
    by (auto simp add: empty_raw)
  show ?thesis
    unfolding Let_def using f e fm em by blast
qed

theorem C1_full_empty_flags_witness:
  "(3::nat) < LENGTH(64)
   \<and> size_rb \<lparr>rd_ptr = 5 :: 64 word, wr_ptr = 13, size_rb = 8, buffer = []\<rparr> = 2 ^ 3
   \<and> wr_idx (snd (rb_get_state \<lparr>rd_ptr = 5 :: 64 word, wr_ptr = 13, size_rb = 8, buffer = []\<rparr> zero_state))
       = rd_idx (snd (rb_get_state \<lparr>rd_ptr = 5 :: 64 word, wr_ptr = 13, size_rb = 8, buffer = []\<rparr> zero_state))
   \<and> full (snd (rb_get_state \<lparr>rd_ptr = 5 :: 64 word, wr_ptr = 13, size_rb = 8, buffer = []\<rparr> zero_state))
   \<and> \<not> empty (snd (rb_get_state \<lparr>rd_ptr = 5 :: 64 word, wr_ptr = 13, size_rb = 8, buffer = []\<rparr> zero_state))
   \<and> bit (13 :: 64 word) 3 \<and> \<not> bit (5 :: 64 word) 3"
proof -
  have h1: "(3::nat) < LENGTH(64)" by simp
  have h2: "size_rb \<lparr>rd_ptr = 5 :: 64 word, wr_ptr = 13, size_rb = 8, buffer = []\<rparr> = 2 ^ 3"
    by simp
  show ?thesis
    using C1_full_empty_flags [OF h1 h2, of zero_state]
    by (simp add: rb_get_state_def Let_def zero_state_def)
qed

text \<open>
  Claim C10. For every header whose size is a power of two, the state satisfies
  \<open>wr_idx + contiguous_free_size \<le> size\<close> and \<open>rd_idx + contiguous_used_size \<le> size\<close>,
  as natural numbers, so that reading or writing the contiguous number of bytes from the
  index stays inside the storage.
\<close>

theorem C10_contiguous_in_storage:
  fixes rb :: "'a::len lap_ptr_rb_header"
  assumes "N < LENGTH('a)" and "size_rb rb = 2 ^ N"
  shows "unat (wr_idx (snd (rb_get_state rb st)))
           + unat (contiguous_free_size (snd (rb_get_state rb st))) \<le> unat (size_rb rb)
       \<and> unat (rd_idx (snd (rb_get_state rb st)))
           + unat (contiguous_used_size (snd (rb_get_state rb st))) \<le> unat (size_rb rb)"
proof -
  let ?s = "snd (rb_get_state rb st)"
  have w: "wr_idx ?s < size_rb rb" and r: "rd_idx ?s < size_rb rb"
    using assms by (simp_all add: wr_idx_pow2 rd_idx_pow2 take_bit_lt_p2)
  have "unat (wr_idx ?s) + unat (contiguous_free_size ?s) \<le> unat (size_rb rb)"
    unfolding contiguous_free_size_raw using w r by unat_arith
  moreover have "unat (rd_idx ?s) + unat (contiguous_used_size ?s) \<le> unat (size_rb rb)"
    unfolding contiguous_used_size_raw using w r by unat_arith
  ultimately show ?thesis by simp
qed

theorem C10_contiguous_in_storage_witness:
  "(3::nat) < LENGTH(64)
   \<and> size_rb \<lparr>rd_ptr = 5 :: 64 word, wr_ptr = 8, size_rb = 8, buffer = []\<rparr> = 2 ^ 3
   \<and> unat (wr_idx (snd (rb_get_state \<lparr>rd_ptr = 5 :: 64 word, wr_ptr = 8, size_rb = 8, buffer = []\<rparr> zero_state)))
       + unat (contiguous_free_size (snd (rb_get_state \<lparr>rd_ptr = 5 :: 64 word, wr_ptr = 8, size_rb = 8, buffer = []\<rparr> zero_state)))
       \<le> unat (8 :: 64 word)
   \<and> unat (rd_idx (snd (rb_get_state \<lparr>rd_ptr = 5 :: 64 word, wr_ptr = 8, size_rb = 8, buffer = []\<rparr> zero_state)))
       + unat (contiguous_used_size (snd (rb_get_state \<lparr>rd_ptr = 5 :: 64 word, wr_ptr = 8, size_rb = 8, buffer = []\<rparr> zero_state)))
       \<le> unat (8 :: 64 word)
   \<and> contiguous_free_size (snd (rb_get_state \<lparr>rd_ptr = 5 :: 64 word, wr_ptr = 8, size_rb = 8, buffer = []\<rparr> zero_state)) = 5
   \<and> contiguous_used_size (snd (rb_get_state \<lparr>rd_ptr = 5 :: 64 word, wr_ptr = 8, size_rb = 8, buffer = []\<rparr> zero_state)) = 3"
proof -
  have h1: "(3::nat) < LENGTH(64)" by simp
  have h2: "size_rb \<lparr>rd_ptr = 5 :: 64 word, wr_ptr = 8, size_rb = 8, buffer = []\<rparr> = 2 ^ 3"
    by simp
  show ?thesis
    using C10_contiguous_in_storage [OF h1 h2, of zero_state]
    by (simp add: rb_get_state_def Let_def zero_state_def)
qed

section \<open>The state of a header that satisfies the invariant\<close>

lemma rb_inv_init:
  "N < LENGTH('a) \<Longrightarrow>
   rb_inv N (\<lparr>rd_ptr = 0, wr_ptr = 0, size_rb = 2 ^ N, buffer = b\<rparr> :: 'a::len lap_ptr_rb_header)"
  by (simp add: rb_inv_def)

lemma rb_inv_write:
  assumes "rb_inv N rb" and "n \<le> free_size (snd (rb_get_state rb st))"
  shows "rb_inv N (rb_advance_write_unsafe rb n)"
proof -
  let ?d = "wr_ptr rb - rd_ptr rb"
  have len: "N < LENGTH('a)" by (rule rb_inv_len [OF assms(1)])
  have d: "unat ?d \<le> 2 ^ N"
    using rb_inv_dist [OF assms(1)] by (simp add: word_le_nat_alt unat_p2 [OF len])
  have "unat (2 ^ N - ?d) = 2 ^ N - unat ?d"
    using rb_inv_dist [OF assms(1)] by (simp add: unat_sub unat_p2 [OF len])
  then have n: "unat n \<le> 2 ^ N - unat ?d"
    using assms(2) by (simp add: free_size_inv [OF assms(1)] word_le_nat_alt)
  have "(2::nat) ^ N < 2 ^ LENGTH('a)" using len by simp
  then have "unat ?d + unat n < 2 ^ LENGTH('a)" using d n by linarith
  then have "unat (?d + n) = unat ?d + unat n" by (simp add: unat_add_lem)
  then have le: "?d + n \<le> 2 ^ N" using d n by (simp add: word_le_nat_alt unat_p2 [OF len])
  have e: "wr_ptr rb + n - rd_ptr rb = ?d + n" by simp
  have "wr_ptr rb + n - rd_ptr rb \<le> 2 ^ N" unfolding e by (rule le)
  then show ?thesis
    using len rb_inv_size [OF assms(1)] by (simp add: rb_inv_def rb_advance_write_unsafe_def)
qed

lemma rb_inv_read:
  assumes "rb_inv N rb" and "n \<le> used_size (snd (rb_get_state rb st))"
  shows "rb_inv N (rb_advance_read_unsafe rb n)"
proof -
  let ?d = "wr_ptr rb - rd_ptr rb"
  have n: "n \<le> ?d" using assms(2) by (simp add: used_size_inv [OF assms(1)])
  then have "?d - n \<le> ?d" by unat_arith
  then have le: "?d - n \<le> 2 ^ N" using rb_inv_dist [OF assms(1)] by simp
  have e: "wr_ptr rb - (rd_ptr rb + n) = ?d - n" by simp
  have "wr_ptr rb - (rd_ptr rb + n) \<le> 2 ^ N" unfolding e by (rule le)
  then show ?thesis
    using rb_inv_len [OF assms(1)] rb_inv_size [OF assms(1)]
    by (simp add: rb_inv_def rb_advance_read_unsafe_def)
qed

lemma rb_inv_store: "rb_inv N rb \<Longrightarrow> rb_inv N (rb\<lparr>buffer := b\<rparr>)"
  by (simp add: rb_inv_def)

lemma reachable_inv: "reachable rb \<Longrightarrow> \<exists>N. rb_inv N rb"
proof (induction rule: reachable.induct)
  case (reachable_init N b)
  then show ?case by (blast intro: rb_inv_init)
next
  case (reachable_write rb n st)
  then show ?case by (blast intro: rb_inv_write)
next
  case (reachable_read rb n st)
  then show ?case by (blast intro: rb_inv_read)
next
  case (reachable_store rb i v)
  then show ?case by (blast intro: rb_inv_store)
qed

subsection \<open>The fields as natural numbers\<close>

lemma nat_dist:
  assumes "rb_inv N rb"
  shows "unat (wr_ptr rb - rd_ptr rb) \<le> 2 ^ N"
  using rb_inv_dist [OF assms] by (simp add: word_le_nat_alt unat_p2 [OF rb_inv_len [OF assms]])

lemma nat_size: "rb_inv N rb \<Longrightarrow> unat (size_rb rb) = 2 ^ N"
  by (simp add: rb_inv_def unat_p2)

lemma nat_used_size:
  "rb_inv N rb \<Longrightarrow> unat (used_size (snd (rb_get_state rb st))) = unat (wr_ptr rb - rd_ptr rb)"
  by (simp add: used_size_inv)

lemma nat_free_size:
  assumes "rb_inv N rb"
  shows "unat (free_size (snd (rb_get_state rb st))) = 2 ^ N - unat (wr_ptr rb - rd_ptr rb)"
  using rb_inv_dist [OF assms]
  by (simp add: free_size_inv [OF assms] unat_sub unat_p2 [OF rb_inv_len [OF assms]])

lemma nat_full:
  assumes "rb_inv N rb"
  shows "full (snd (rb_get_state rb st)) = (unat (wr_ptr rb - rd_ptr rb) = 2 ^ N)"
  by (simp add: full_inv [OF assms] word_unat_eq_iff unat_p2 [OF rb_inv_len [OF assms]])

lemma nat_empty:
  assumes "rb_inv N rb"
  shows "empty (snd (rb_get_state rb st)) = (unat (wr_ptr rb - rd_ptr rb) = 0)"
  by (auto simp add: empty_inv [OF assms] unat_eq_0)

lemma nat_rd_idx:
  "rb_inv N rb \<Longrightarrow> unat (rd_idx (snd (rb_get_state rb st))) = unat (rd_ptr rb) mod 2 ^ N"
  by (simp add: rd_idx_pow2 [OF rb_inv_size] unat_take_bit_mod)

lemma unat_add_mod_p2:
  assumes "N < LENGTH('a)"
  shows "unat ((x::'a::len word) + y) mod 2 ^ N = (unat x mod 2 ^ N + unat y) mod 2 ^ N"
proof -
  have "(2::nat) ^ N dvd 2 ^ LENGTH('a)" using assms by (simp add: le_imp_power_dvd)
  then have "unat (x + y) mod 2 ^ N = (unat x + unat y) mod 2 ^ N"
    by (simp add: unat_word_ariths mod_mod_cancel)
  then show ?thesis by (simp add: mod_add_left_eq)
qed

lemma nat_wr_idx:
  assumes "rb_inv N rb"
  shows "unat (wr_idx (snd (rb_get_state rb st)))
           = (unat (rd_idx (snd (rb_get_state rb st))) + unat (wr_ptr rb - rd_ptr rb)) mod 2 ^ N"
proof -
  have "wr_ptr rb = rd_ptr rb + (wr_ptr rb - rd_ptr rb)" by simp
  then have "unat (wr_ptr rb) mod 2 ^ N
               = unat (rd_ptr rb + (wr_ptr rb - rd_ptr rb)) mod 2 ^ N" by simp
  also have "\<dots> = (unat (rd_ptr rb) mod 2 ^ N + unat (wr_ptr rb - rd_ptr rb)) mod 2 ^ N"
    by (rule unat_add_mod_p2 [OF rb_inv_len [OF assms]])
  finally show ?thesis
    by (simp add: nat_rd_idx [OF assms] wr_idx_pow2 [OF rb_inv_size [OF assms]] unat_take_bit_mod)
qed

lemma run_used_arith:
  fixes R u c Wx :: nat
  assumes "R < c" and "u \<le> c" and "Wx = (R + u) mod c"
  shows "(if u = 0 then 0 else if Wx \<le> R then c - R else Wx - R) = min u (c - R)"
proof (cases "R + u < c")
  case True
  then have "Wx = R + u" using assms(3) by simp
  then show ?thesis using assms(1,2) True by auto
next
  case False
  then have "(R + u) mod c = R + u - c" using assms(1,2) by (simp add: mod_if)
  then have "Wx + c = R + u" using assms(3) False by simp
  then show ?thesis using assms(1,2) False by auto
qed

lemma run_free_arith:
  fixes R u c Wx :: nat
  assumes "R < c" and "u \<le> c" and "Wx = (R + u) mod c"
  shows "(if u = c then 0 else if R \<le> Wx then c - Wx else R - Wx) = min (c - u) (c - Wx)"
proof (cases "R + u < c")
  case True
  then have "Wx = R + u" using assms(3) by simp
  then show ?thesis using assms(1,2) True by auto
next
  case False
  then have "(R + u) mod c = R + u - c" using assms(1,2) by (simp add: mod_if)
  then have "Wx + c = R + u" using assms(3) False by simp
  then show ?thesis using assms(1,2) False by auto
qed

lemma nat_idx_lt:
  assumes "rb_inv N rb"
  shows "unat (rd_idx (snd (rb_get_state rb st))) < 2 ^ N"
    and "unat (wr_idx (snd (rb_get_state rb st))) < 2 ^ N"
  by (simp_all add: nat_rd_idx [OF assms] nat_wr_idx [OF assms])

lemma nat_contiguous_used_size:
  assumes "rb_inv N rb"
  shows "unat (contiguous_used_size (snd (rb_get_state rb st)))
           = min (unat (wr_ptr rb - rd_ptr rb)) (2 ^ N - unat (rd_idx (snd (rb_get_state rb st))))"
proof -
  let ?s = "snd (rb_get_state rb st)"
  let ?u = "unat (wr_ptr rb - rd_ptr rb)"
  have sz: "unat (size_rb rb) = 2 ^ N" by (rule nat_size [OF assms])
  have r: "unat (rd_idx ?s) < 2 ^ N" by (rule nat_idx_lt [OF assms])
  have a: "unat (size_rb rb - rd_idx ?s) = 2 ^ N - unat (rd_idx ?s)"
    using r sz by (simp add: unat_sub word_le_nat_alt)
  have b: "\<not> wr_idx ?s \<le> rd_idx ?s \<Longrightarrow>
             unat (wr_idx ?s - rd_idx ?s) = unat (wr_idx ?s) - unat (rd_idx ?s)"
    by (simp add: unat_sub)
  have "unat (contiguous_used_size ?s)
          = (if ?u = 0 then 0
             else if unat (wr_idx ?s) \<le> unat (rd_idx ?s) then 2 ^ N - unat (rd_idx ?s)
             else unat (wr_idx ?s) - unat (rd_idx ?s))"
    using a b by (simp add: contiguous_used_size_raw nat_empty [OF assms] word_le_nat_alt)
  also have "\<dots> = min ?u (2 ^ N - unat (rd_idx ?s))"
    by (rule run_used_arith [OF r nat_dist [OF assms] nat_wr_idx [OF assms]])
  finally show ?thesis .
qed

lemma nat_contiguous_free_size:
  assumes "rb_inv N rb"
  shows "unat (contiguous_free_size (snd (rb_get_state rb st)))
           = min (2 ^ N - unat (wr_ptr rb - rd_ptr rb))
                 (2 ^ N - unat (wr_idx (snd (rb_get_state rb st))))"
proof -
  let ?s = "snd (rb_get_state rb st)"
  let ?u = "unat (wr_ptr rb - rd_ptr rb)"
  have sz: "unat (size_rb rb) = 2 ^ N" by (rule nat_size [OF assms])
  have r: "unat (rd_idx ?s) < 2 ^ N" by (rule nat_idx_lt [OF assms])
  have w: "unat (wr_idx ?s) < 2 ^ N" by (rule nat_idx_lt [OF assms])
  have a: "unat (size_rb rb - wr_idx ?s) = 2 ^ N - unat (wr_idx ?s)"
    using w sz by (simp add: unat_sub word_le_nat_alt)
  have b: "\<not> rd_idx ?s \<le> wr_idx ?s \<Longrightarrow>
             unat (rd_idx ?s - wr_idx ?s) = unat (rd_idx ?s) - unat (wr_idx ?s)"
    by (simp add: unat_sub)
  have "unat (contiguous_free_size ?s)
          = (if ?u = 2 ^ N then 0
             else if unat (rd_idx ?s) \<le> unat (wr_idx ?s) then 2 ^ N - unat (wr_idx ?s)
             else unat (rd_idx ?s) - unat (wr_idx ?s))"
    using a b by (simp add: contiguous_free_size_raw nat_full [OF assms] word_le_nat_alt)
  also have "\<dots> = min (2 ^ N - ?u) (2 ^ N - unat (wr_idx ?s))"
    by (rule run_free_arith [OF r nat_dist [OF assms] nat_wr_idx [OF assms]])
  finally show ?thesis .
qed

section \<open>Results about reachable headers\<close>

lemma reachable_example:
  "reachable (\<lparr>rd_ptr = 5, wr_ptr = 8, size_rb = 8, buffer = replicate 8 0\<rparr>
               :: 64 lap_ptr_rb_header)"
proof -
  have r0: "reachable (\<lparr>rd_ptr = 0, wr_ptr = 0, size_rb = 8, buffer = replicate 8 0\<rparr>
                        :: 64 lap_ptr_rb_header)"
    using reachable_init [where N = 3 and b = "replicate 8 0" and 'a = 64] by simp
  have r1: "reachable (\<lparr>rd_ptr = 0, wr_ptr = 8, size_rb = 8, buffer = replicate 8 0\<rparr>
                        :: 64 lap_ptr_rb_header)"
    using reachable_write [OF r0, of 8 zero_state]
    by (simp add: rb_get_state_def Let_def rb_advance_write_unsafe_def)
  show ?thesis
    using reachable_read [OF r1, of 5 zero_state]
    by (simp add: rb_get_state_def Let_def rb_advance_read_unsafe_def)
qed

text \<open>
  Claim C2. In every reachable header the state's used size and free size add up to the
  size of the buffer, as machine words and as natural numbers (the sum does not wrap).
\<close>

theorem C2_used_plus_free:
  assumes "reachable rb"
  shows "used_size (snd (rb_get_state rb st)) + free_size (snd (rb_get_state rb st)) = size_rb rb
       \<and> unat (used_size (snd (rb_get_state rb st))) + unat (free_size (snd (rb_get_state rb st)))
           = unat (size_rb rb)"
proof -
  obtain N where inv: "rb_inv N rb" using reachable_inv [OF assms] by blast
  have "used_size (snd (rb_get_state rb st)) + free_size (snd (rb_get_state rb st)) = size_rb rb"
    by (simp add: used_size_inv [OF inv] free_size_inv [OF inv] rb_inv_size [OF inv])
  moreover have "unat (used_size (snd (rb_get_state rb st)))
                   + unat (free_size (snd (rb_get_state rb st))) = unat (size_rb rb)"
    using nat_dist [OF inv]
    by (simp add: nat_used_size [OF inv] nat_free_size [OF inv] nat_size [OF inv])
  ultimately show ?thesis by simp
qed

theorem C2_used_plus_free_witness:
  "reachable (\<lparr>rd_ptr = 5, wr_ptr = 8, size_rb = 8, buffer = replicate 8 0\<rparr> :: 64 lap_ptr_rb_header)
   \<and> used_size (snd (rb_get_state
        (\<lparr>rd_ptr = 5, wr_ptr = 8, size_rb = 8, buffer = replicate 8 0\<rparr> :: 64 lap_ptr_rb_header)
        zero_state)) = 3
   \<and> free_size (snd (rb_get_state
        (\<lparr>rd_ptr = 5, wr_ptr = 8, size_rb = 8, buffer = replicate 8 0\<rparr> :: 64 lap_ptr_rb_header)
        zero_state)) = 5
   \<and> used_size (snd (rb_get_state
        (\<lparr>rd_ptr = 5, wr_ptr = 8, size_rb = 8, buffer = replicate 8 0\<rparr> :: 64 lap_ptr_rb_header)
        zero_state))
     + free_size (snd (rb_get_state
        (\<lparr>rd_ptr = 5, wr_ptr = 8, size_rb = 8, buffer = replicate 8 0\<rparr> :: 64 lap_ptr_rb_header)
        zero_state)) = 8"
  using reachable_example C2_used_plus_free [OF reachable_example, of zero_state]
  by (simp add: rb_get_state_def Let_def)

text \<open>
  Claim C3. From a reachable header and for every \<open>n\<close> up to the used size the state
  reports, advancing the read pointer by \<open>n\<close> and asking for the state again gives a
  used size smaller by exactly \<open>n\<close>, a free size larger by exactly \<open>n\<close>, a read index
  advanced by \<open>n\<close> modulo the size, and the same write index.
\<close>

theorem C3_advance_read_roundtrip:
  assumes "reachable rb" and "n \<le> used_size (snd (rb_get_state rb st))"
  shows "let s = snd (rb_get_state rb st);
             s' = snd (rb_get_state (rb_advance_read_unsafe rb n) st')
         in unat (used_size s') = unat (used_size s) - unat n
          \<and> unat (free_size s') = unat (free_size s) + unat n
          \<and> used_size s' = used_size s - n
          \<and> free_size s' = free_size s + n
          \<and> unat (rd_idx s') = (unat (rd_idx s) + unat n) mod unat (size_rb rb)
          \<and> wr_idx s' = wr_idx s"
proof -
  obtain N where inv: "rb_inv N rb" using reachable_inv [OF assms(1)] by blast
  let ?rb' = "rb_advance_read_unsafe rb n"
  let ?d = "wr_ptr rb - rd_ptr rb"
  have inv': "rb_inv N ?rb'" by (rule rb_inv_read [OF inv assms(2)])
  have n: "n \<le> ?d" using assms(2) by (simp add: used_size_inv [OF inv])
  have d': "wr_ptr ?rb' - rd_ptr ?rb' = ?d - n" by (simp add: rb_advance_read_unsafe_def)
  have u: "unat (?d - n) = unat ?d - unat n" using n by (simp add: unat_sub)
  have le: "unat n \<le> unat ?d" using n by (simp add: word_le_nat_alt)
  have c1: "unat (used_size (snd (rb_get_state ?rb' st')))
              = unat (used_size (snd (rb_get_state rb st))) - unat n"
    by (simp only: nat_used_size [OF inv] nat_used_size [OF inv'] d' u)
  have c2: "unat (free_size (snd (rb_get_state ?rb' st')))
              = unat (free_size (snd (rb_get_state rb st))) + unat n"
    using le nat_dist [OF inv]
    by (simp add: nat_free_size [OF inv] nat_free_size [OF inv'] d' u)
  have c3: "used_size (snd (rb_get_state ?rb' st')) = used_size (snd (rb_get_state rb st)) - n"
    by (simp only: used_size_inv [OF inv] used_size_inv [OF inv'] d')
  have c4: "free_size (snd (rb_get_state ?rb' st')) = free_size (snd (rb_get_state rb st)) + n"
    by (simp add: free_size_inv [OF inv] free_size_inv [OF inv'] d')
  have rp: "rd_ptr ?rb' = rd_ptr rb + n" by (simp add: rb_advance_read_unsafe_def)
  have "unat (rd_ptr ?rb') mod 2 ^ N = (unat (rd_ptr rb) mod 2 ^ N + unat n) mod 2 ^ N"
    unfolding rp by (rule unat_add_mod_p2 [OF rb_inv_len [OF inv]])
  then have c5: "unat (rd_idx (snd (rb_get_state ?rb' st')))
              = (unat (rd_idx (snd (rb_get_state rb st))) + unat n) mod unat (size_rb rb)"
    by (simp only: nat_rd_idx [OF inv] nat_rd_idx [OF inv'] nat_size [OF inv])
  have c6: "wr_idx (snd (rb_get_state ?rb' st')) = wr_idx (snd (rb_get_state rb st))"
    by (simp add: wr_idx_raw rb_advance_read_unsafe_def)
  show ?thesis unfolding Let_def using c1 c2 c3 c4 c5 c6 by blast
qed

theorem C3_advance_read_roundtrip_witness:
  "reachable (\<lparr>rd_ptr = 5, wr_ptr = 8, size_rb = 8, buffer = replicate 8 0\<rparr> :: 64 lap_ptr_rb_header)
   \<and> (2 :: 64 word) \<le> used_size (snd (rb_get_state
        (\<lparr>rd_ptr = 5, wr_ptr = 8, size_rb = 8, buffer = replicate 8 0\<rparr> :: 64 lap_ptr_rb_header)
        zero_state))
   \<and> used_size (snd (rb_get_state
        (\<lparr>rd_ptr = 5, wr_ptr = 8, size_rb = 8, buffer = replicate 8 0\<rparr> :: 64 lap_ptr_rb_header)
        zero_state)) = 3
   \<and> snd (rb_get_state (rb_advance_read_unsafe
        (\<lparr>rd_ptr = 5, wr_ptr = 8, size_rb = 8, buffer = replicate 8 0\<rparr> :: 64 lap_ptr_rb_header) 2)
        zero_state)
       = \<lparr>rd_idx = 7, wr_idx = 0, full = False, empty = False, used_size = 1, free_size = 7,
          contiguous_used_size = 1, contiguous_free_size = 7\<rparr>"
proof -
  have h: "(2 :: 64 word) \<le> used_size (snd (rb_get_state
        (\<lparr>rd_ptr = 5, wr_ptr = 8, size_rb = 8, buffer = replicate 8 0\<rparr> :: 64 lap_ptr_rb_header)
        zero_state))"
    by (simp add: rb_get_state_def Let_def)
  show ?thesis
    using reachable_example
      C3_advance_read_roundtrip [OF reachable_example h, of zero_state]
    by (simp add: rb_get_state_def Let_def rb_advance_read_unsafe_def)
qed

text \<open>
  Claim C5. In every reachable header the contiguous used size is at most the used size
  and the contiguous free size is at most the free size. They are equal exactly when the
  run from the index fits below the end of the storage: the read index plus the used size,
  respectively the write index plus the free size, does not exceed the size.
\<close>

theorem C5_contiguous_le_total:
  assumes "reachable rb"
  shows "let s = snd (rb_get_state rb st)
         in contiguous_used_size s \<le> used_size s
          \<and> contiguous_free_size s \<le> free_size s
          \<and> (contiguous_used_size s = used_size s)
              = (unat (rd_idx s) + unat (used_size s) \<le> unat (size_rb rb))
          \<and> (contiguous_free_size s = free_size s)
              = (unat (wr_idx s) + unat (free_size s) \<le> unat (size_rb rb))"
proof -
  obtain N where inv: "rb_inv N rb" using reachable_inv [OF assms] by blast
  let ?s = "snd (rb_get_state rb st)"
  have r: "unat (rd_idx ?s) < 2 ^ N" and w: "unat (wr_idx ?s) < 2 ^ N"
    by (rule nat_idx_lt [OF inv])+
  have d: "unat (wr_ptr rb - rd_ptr rb) \<le> 2 ^ N" by (rule nat_dist [OF inv])
  have c1: "contiguous_used_size ?s \<le> used_size ?s"
    by (simp add: word_le_nat_alt nat_contiguous_used_size [OF inv] nat_used_size [OF inv])
  have c2: "contiguous_free_size ?s \<le> free_size ?s"
    by (simp add: word_le_nat_alt nat_contiguous_free_size [OF inv] nat_free_size [OF inv])
  have c3: "(contiguous_used_size ?s = used_size ?s)
              = (unat (rd_idx ?s) + unat (used_size ?s) \<le> unat (size_rb rb))"
    using r d
    by (auto simp add: word_unat_eq_iff nat_contiguous_used_size [OF inv]
        nat_used_size [OF inv] nat_size [OF inv])
  have c4: "(contiguous_free_size ?s = free_size ?s)
              = (unat (wr_idx ?s) + unat (free_size ?s) \<le> unat (size_rb rb))"
    using w d
    by (auto simp add: word_unat_eq_iff nat_contiguous_free_size [OF inv]
        nat_free_size [OF inv] nat_size [OF inv])
  show ?thesis unfolding Let_def using c1 c2 c3 c4 by blast
qed

theorem C5_contiguous_le_total_witness:
  "reachable (\<lparr>rd_ptr = 5, wr_ptr = 8, size_rb = 8, buffer = replicate 8 0\<rparr> :: 64 lap_ptr_rb_header)
   \<and> contiguous_used_size (snd (rb_get_state
        (\<lparr>rd_ptr = 5, wr_ptr = 8, size_rb = 8, buffer = replicate 8 0\<rparr> :: 64 lap_ptr_rb_header)
        zero_state))
       \<le> used_size (snd (rb_get_state
        (\<lparr>rd_ptr = 5, wr_ptr = 8, size_rb = 8, buffer = replicate 8 0\<rparr> :: 64 lap_ptr_rb_header)
        zero_state))
   \<and> contiguous_free_size (snd (rb_get_state
        (\<lparr>rd_ptr = 5, wr_ptr = 8, size_rb = 8, buffer = replicate 8 0\<rparr> :: 64 lap_ptr_rb_header)
        zero_state))
       \<le> free_size (snd (rb_get_state
        (\<lparr>rd_ptr = 5, wr_ptr = 8, size_rb = 8, buffer = replicate 8 0\<rparr> :: 64 lap_ptr_rb_header)
        zero_state))
   \<and> snd (rb_get_state
        (\<lparr>rd_ptr = 5, wr_ptr = 8, size_rb = 8, buffer = replicate 8 0\<rparr> :: 64 lap_ptr_rb_header)
        zero_state)
       = \<lparr>rd_idx = 5, wr_idx = 0, full = False, empty = False, used_size = 3, free_size = 5,
          contiguous_used_size = 3, contiguous_free_size = 5\<rparr>"
  using reachable_example C5_contiguous_le_total [OF reachable_example, of zero_state]
  by (simp add: rb_get_state_def Let_def)

section \<open>The code against the specification's state, across the wrap of the pointers\<close>

lemma word_of_unat: "unat (x::'a::len word) = k \<Longrightarrow> x = of_nat k"
  by auto

lemma unat_of_nat_le_p2:
  assumes "N < LENGTH('a)" and "k \<le> 2 ^ N"
  shows "unat (of_nat k :: 'a::len word) = k"
proof -
  have "(2::nat) ^ N < 2 ^ LENGTH('a)" using assms(1) by simp
  then have "k < 2 ^ LENGTH('a)" using assms(2) by linarith
  then show ?thesis by (simp add: unat_of_nat)
qed

lemma unat_of_nat_mod_p2:
  assumes "N < LENGTH('a)"
  shows "unat (of_nat k :: 'a::len word) mod 2 ^ N = k mod 2 ^ N"
proof -
  have "(2::nat) ^ N dvd 2 ^ LENGTH('a)" using assms by (simp add: le_imp_power_dvd)
  then show ?thesis by (simp add: unat_of_nat mod_mod_cancel)
qed

lemma state_of_counters:
  fixes rb :: "'a::len lap_ptr_rb_header"
  assumes len: "N < LENGTH('a)" and sz: "size_rb rb = 2 ^ N"
    and rd: "rd_ptr rb = of_nat r" and wr: "wr_ptr rb = of_nat w"
    and rw: "r \<le> w" and wc: "w \<le> r + 2 ^ N"
  shows "snd (rb_get_state rb st) = spec_state (2 ^ N) r w"
proof -
  let ?s = "snd (rb_get_state rb st)"
  let ?c = "(2::nat) ^ N"
  have dw: "wr_ptr rb - rd_ptr rb = of_nat (w - r)" using rw by (simp add: rd wr of_nat_diff)
  have wrc: "w - r \<le> ?c" using wc by linarith
  have u: "unat (wr_ptr rb - rd_ptr rb) = w - r"
    unfolding dw by (rule unat_of_nat_le_p2 [OF len wrc])
  have "wr_ptr rb - rd_ptr rb \<le> 2 ^ N"
    using wrc by (simp add: word_le_nat_alt u unat_p2 [OF len])
  then have inv: "rb_inv N rb" using len sz by (simp add: rb_inv_def)
  have ri: "unat (rd_idx ?s) = r mod ?c"
    by (simp only: nat_rd_idx [OF inv] rd unat_of_nat_mod_p2 [OF len])
  have "(r mod ?c + (w - r)) mod ?c = (r + (w - r)) mod ?c" by (rule mod_add_left_eq)
  then have wi: "unat (wr_idx ?s) = w mod ?c"
    using rw by (simp add: nat_wr_idx [OF inv] ri u)
  have f1: "rd_idx ?s = of_nat (r mod ?c)" by (rule word_of_unat [OF ri])
  have f2: "wr_idx ?s = of_nat (w mod ?c)" by (rule word_of_unat [OF wi])
  have f3: "full ?s = (w - r = ?c)" by (simp only: nat_full [OF inv] u)
  have f4: "empty ?s = (w - r = 0)" by (simp only: nat_empty [OF inv] u)
  have f5: "used_size ?s = of_nat (w - r)"
    by (rule word_of_unat) (simp only: nat_used_size [OF inv] u)
  have f6: "free_size ?s = of_nat (?c - (w - r))"
    by (rule word_of_unat) (simp only: nat_free_size [OF inv] u)
  have f7: "contiguous_used_size ?s = of_nat (min (w - r) (?c - r mod ?c))"
    by (rule word_of_unat) (simp only: nat_contiguous_used_size [OF inv] u ri)
  have f8: "contiguous_free_size ?s = of_nat (min (?c - (w - r)) (?c - w mod ?c))"
    by (rule word_of_unat) (simp only: nat_contiguous_free_size [OF inv] u wi)
  show ?thesis
    by (rule lap_ptr_rb_state.equality)
      (simp_all add: spec_state_def Let_def f1 f2 f3 f4 f5 f6 f7 f8)
qed

lemma spec_state_lap:
  "0 < cap \<Longrightarrow> r \<le> w \<Longrightarrow>
   (spec_state cap (r + k * cap) (w + k * cap) :: 'a::len lap_ptr_rb_state) = spec_state cap r w"
  by (simp add: spec_state_def Let_def)

text \<open>
  Claim C6. Let a header of size \<open>2 ^ N\<close> hold the pointers that \<open>r\<close> bytes read and \<open>w\<close>
  bytes written in total leave in it: the totals modulo \<open>2 ^ W\<close>, however many times they
  have wrapped, with at most a full buffer between them. Then one more advance, of the
  write pointer by \<open>n\<close> within the free space or of the read pointer by \<open>m\<close> within the used
  space, gives exactly the state the specification describes for the new totals, also
  when the addition wraps the pointer at \<open>2 ^ W\<close>. The state does not depend on the number
  of laps: \<open>k\<close> more laps on both totals leave it unchanged.
\<close>

theorem C6_state_across_pointer_wrap:
  fixes rb :: "'a::len lap_ptr_rb_header"
  assumes "N < LENGTH('a)" and "size_rb rb = 2 ^ N"
    and "rd_ptr rb = of_nat r" and "wr_ptr rb = of_nat w"
    and "r \<le> w" and "w + n \<le> r + 2 ^ N" and "r + m \<le> w"
  shows "snd (rb_get_state (rb_advance_write_unsafe rb (of_nat n)) st)
           = spec_state (2 ^ N) r (w + n)
       \<and> snd (rb_get_state (rb_advance_read_unsafe rb (of_nat m)) st)
           = spec_state (2 ^ N) (r + m) w
       \<and> snd (rb_get_state (rb\<lparr>rd_ptr := of_nat (r + k * 2 ^ N),
                                 wr_ptr := of_nat (w + k * 2 ^ N)\<rparr>) st)
           = snd (rb_get_state rb st)"
proof -
  let ?c = "(2::nat) ^ N"
  have wc: "w \<le> r + ?c" using assms(6) by linarith
  have a: "snd (rb_get_state (rb_advance_write_unsafe rb (of_nat n)) st)
             = spec_state ?c r (w + n)"
  proof (rule state_of_counters [OF assms(1)])
    show "size_rb (rb_advance_write_unsafe rb (of_nat n)) = 2 ^ N"
      by (simp add: rb_advance_write_unsafe_def assms(2))
    show "rd_ptr (rb_advance_write_unsafe rb (of_nat n)) = of_nat r"
      by (simp add: rb_advance_write_unsafe_def assms(3))
    show "wr_ptr (rb_advance_write_unsafe rb (of_nat n)) = of_nat (w + n)"
      by (simp add: rb_advance_write_unsafe_def assms(4))
    show "r \<le> w + n" using assms(5) by linarith
    show "w + n \<le> r + ?c" by (rule assms(6))
  qed
  have b: "snd (rb_get_state (rb_advance_read_unsafe rb (of_nat m)) st)
             = spec_state ?c (r + m) w"
  proof (rule state_of_counters [OF assms(1)])
    show "size_rb (rb_advance_read_unsafe rb (of_nat m)) = 2 ^ N"
      by (simp add: rb_advance_read_unsafe_def assms(2))
    show "rd_ptr (rb_advance_read_unsafe rb (of_nat m)) = of_nat (r + m)"
      by (simp add: rb_advance_read_unsafe_def assms(3))
    show "wr_ptr (rb_advance_read_unsafe rb (of_nat m)) = of_nat w"
      by (simp add: rb_advance_read_unsafe_def assms(4))
    show "r + m \<le> w" by (rule assms(7))
    show "w \<le> r + m + ?c" using wc by linarith
  qed
  have "snd (rb_get_state (rb\<lparr>rd_ptr := of_nat (r + k * ?c), wr_ptr := of_nat (w + k * ?c)\<rparr>) st)
          = (spec_state ?c (r + k * ?c) (w + k * ?c) :: 'a lap_ptr_rb_state)"
  proof (rule state_of_counters [OF assms(1)])
    show "size_rb (rb\<lparr>rd_ptr := of_nat (r + k * ?c), wr_ptr := of_nat (w + k * ?c)\<rparr>) = 2 ^ N"
      by (simp add: assms(2))
    show "rd_ptr (rb\<lparr>rd_ptr := of_nat (r + k * ?c), wr_ptr := of_nat (w + k * ?c)\<rparr>)
            = of_nat (r + k * ?c)" by simp
    show "wr_ptr (rb\<lparr>rd_ptr := of_nat (r + k * ?c), wr_ptr := of_nat (w + k * ?c)\<rparr>)
            = of_nat (w + k * ?c)" by simp
    show "r + k * ?c \<le> w + k * ?c" using assms(5) by simp
    show "w + k * ?c \<le> r + k * ?c + ?c" using wc by simp
  qed
  also have "\<dots> = spec_state ?c r w" using assms(5) by (simp add: spec_state_lap)
  also have "\<dots> = snd (rb_get_state rb st)"
    by (rule state_of_counters [OF assms(1,2,3,4,5) wc, symmetric])
  finally have c: "snd (rb_get_state (rb\<lparr>rd_ptr := of_nat (r + k * ?c),
                                          wr_ptr := of_nat (w + k * ?c)\<rparr>) st)
                     = snd (rb_get_state rb st)" .
  show ?thesis using a b c by blast
qed

theorem C6_state_across_pointer_wrap_witness:
  "(3::nat) < LENGTH(64)
   \<and> size_rb (\<lparr>rd_ptr = 18446744073709551608, wr_ptr = 18446744073709551613, size_rb = 8,
               buffer = []\<rparr> :: 64 lap_ptr_rb_header) = 2 ^ 3
   \<and> (18446744073709551608 :: 64 word) = of_nat 18446744073709551608
   \<and> (18446744073709551613 :: 64 word) = of_nat 18446744073709551613
   \<and> (18446744073709551608 :: nat) \<le> 18446744073709551613
   \<and> (18446744073709551613 :: nat) + 3 \<le> 18446744073709551608 + 2 ^ 3
   \<and> (18446744073709551608 :: nat) + 5 \<le> 18446744073709551613
   \<and> wr_ptr (rb_advance_write_unsafe
        (\<lparr>rd_ptr = 18446744073709551608, wr_ptr = 18446744073709551613, size_rb = 8,
          buffer = []\<rparr> :: 64 lap_ptr_rb_header) 3) = 0
   \<and> snd (rb_get_state (rb_advance_write_unsafe
        (\<lparr>rd_ptr = 18446744073709551608, wr_ptr = 18446744073709551613, size_rb = 8,
          buffer = []\<rparr> :: 64 lap_ptr_rb_header) 3) zero_state)
       = \<lparr>rd_idx = 0, wr_idx = 0, full = True, empty = False, used_size = 8, free_size = 0,
          contiguous_used_size = 8, contiguous_free_size = 0\<rparr>
   \<and> snd (rb_get_state (rb_advance_write_unsafe
        (\<lparr>rd_ptr = 18446744073709551608, wr_ptr = 18446744073709551613, size_rb = 8,
          buffer = []\<rparr> :: 64 lap_ptr_rb_header) 3) zero_state)
       = spec_state 8 18446744073709551608 18446744073709551616
   \<and> snd (rb_get_state (rb_advance_read_unsafe
        (\<lparr>rd_ptr = 18446744073709551608, wr_ptr = 18446744073709551613, size_rb = 8,
          buffer = []\<rparr> :: 64 lap_ptr_rb_header) 5) zero_state)
       = \<lparr>rd_idx = 5, wr_idx = 5, full = False, empty = True, used_size = 0, free_size = 8,
          contiguous_used_size = 0, contiguous_free_size = 3\<rparr>"
proof -
  let ?rb = "\<lparr>rd_ptr = 18446744073709551608, wr_ptr = 18446744073709551613, size_rb = 8,
              buffer = []\<rparr> :: 64 lap_ptr_rb_header"
  have h1: "(3::nat) < LENGTH(64)" by simp
  have h2: "size_rb ?rb = 2 ^ 3" by simp
  have h3: "rd_ptr ?rb = of_nat 18446744073709551608" by simp
  have h4: "wr_ptr ?rb = of_nat 18446744073709551613" by simp
  have h5: "(18446744073709551608 :: nat) \<le> 18446744073709551613" by simp
  have h6: "(18446744073709551613 :: nat) + 3 \<le> 18446744073709551608 + 2 ^ 3" by simp
  have h7: "(18446744073709551608 :: nat) + 5 \<le> 18446744073709551613" by simp
  show ?thesis
    using C6_state_across_pointer_wrap [OF h1 h2 h3 h4 h5 h6 h7, of zero_state 1]
    by (simp add: rb_get_state_def Let_def rb_advance_write_unsafe_def
        rb_advance_read_unsafe_def spec_state_def)
qed


end
